theory Spec2Isabelle
  imports Main "HOL-Library.Multiset" "HOL-Library.Sublist"
begin

section \<open>Strings\<close>

text \<open>
  Python's \<open>str\<close> is modelled by \<open>string\<close>, one \<open>char\<close> per code point; the model
  covers the code points below 256. On that range \<open>str.isspace\<close> holds for the
  characters 9 to 13, 28 to 32, 133 and 160, and \<open>str.lower\<close> maps A to Z and the
  Latin-1 capitals 192 to 222 (without the multiplication sign 215) 32 places up.
\<close>

definition isspace :: "char \<Rightarrow> bool" where
  "isspace c = (let n = (of_char c :: nat) in
     (9 \<le> n \<and> n \<le> 13) \<or> (28 \<le> n \<and> n \<le> 32) \<or> n = 133 \<or> n = 160)"

definition strip :: "string \<Rightarrow> string" where
  "strip s = rev (dropWhile isspace (rev (dropWhile isspace s)))"

definition lower_char :: "char \<Rightarrow> char" where
  "lower_char c = (let n = (of_char c :: nat) in
     if (65 \<le> n \<and> n \<le> 90) \<or> (192 \<le> n \<and> n \<le> 222 \<and> n \<noteq> 215)
     then char_of (n + 32) else c)"

definition lower :: "string \<Rightarrow> string" where
  "lower s = map lower_char s"

text \<open>\<open>'\n'.join(ts)\<close>: the texts with one newline between neighbours.\<close>

fun join_nl :: "string list \<Rightarrow> string" where
  "join_nl [] = []"
| "join_nl [t] = t"
| "join_nl (t # u # ts) = t @ CHR 0x0A # join_nl (u # ts)"

text \<open>
  \<open>content.split('\n\n')\<close>: the text is cut at every occurrence of two newlines,
  found from the left and not overlapping; \<open>cur\<close> holds the current piece, reversed.
  A text without the separator is one piece, and so is the empty text.
\<close>

fun split_acc :: "string \<Rightarrow> string \<Rightarrow> string list" where
  "split_acc cur [] = [rev cur]"
| "split_acc cur [c] = [rev (c # cur)]"
| "split_acc cur (c # d # cs) =
     (if c = CHR 0x0A \<and> d = CHR 0x0A then rev cur # split_acc [] cs
      else split_acc (c # cur) (d # cs))"

definition split_blank :: "string \<Rightarrow> string list" where
  "split_blank s = split_acc [] s"

section \<open>The parsed page\<close>

text \<open>
  The tree that \<open>BeautifulSoup(response.content, 'html.parser')\<close> builds: strings
  and elements with their (lower-case) tag name and children. Every string of the
  tree has a class, which the parser chooses: \<open>NavigableString\<close> for ordinary text,
  \<open>CData\<close> for a CDATA section, \<open>Comment\<close>, and a class of its own for the text inside
  a \<open>script\<close>, \<open>style\<close>, \<open>template\<close>, \<open>rt\<close> or \<open>rp\<close> element and for a doctype, a
  declaration or a processing instruction. \<open>Text\<close> is an ordinary text.
\<close>

datatype string_class =
    NavigableString
  | CData
  | Comment
  | Script
  | Stylesheet
  | TemplateString
  | RubyTextString
  | RubyParenthesisString
  | Doctype
  | Declaration
  | ProcessingInstruction

datatype node = Str string_class string | Element string "node list"

abbreviation Text :: "string \<Rightarrow> node" where
  "Text s \<equiv> Str NavigableString s"

text \<open>
  \<open>tag.get_text()\<close> for an element whose own strings are ordinary, as they are for
  \<open>p\<close>, \<open>h1\<close>, \<open>h2\<close> and \<open>h3\<close>: the strings below it of class \<open>NavigableString\<close> or
  \<open>CData\<close>, in document order. Strings of every other class are left out.
\<close>

fun get_text :: "node \<Rightarrow> string" where
  "get_text (Str k s) = (if k = NavigableString \<or> k = CData then s else [])"
| "get_text (Element n cs) = concat (map get_text cs)"

text \<open>
  \<open>soup.find_all(names)\<close>: every element below the root whose name is listed, in
  document order, an element before the matching elements inside it.
\<close>

fun find_all :: "string list \<Rightarrow> node \<Rightarrow> node list" where
  "find_all names (Str k s) = []"
| "find_all names (Element n cs) =
     (if n \<in> set names then [Element n cs] else []) @ concat (map (find_all names) cs)"

definition soup_find_all :: "string list \<Rightarrow> node list \<Rightarrow> node list" where
  "soup_find_all names roots = concat (map (find_all names) roots)"

definition tag_texts :: "node list \<Rightarrow> string list" where
  "tag_texts roots =
     map get_text (soup_find_all [''p'', ''h1'', ''h2'', ''h3''] roots)"

text \<open>
  The nodes of a page, for stating what is extracted: the roots, and the children of
  every element of the page.
\<close>

inductive_set nodes_of :: "node list \<Rightarrow> node set" for roots :: "node list" where
  root: "x \<in> set roots \<Longrightarrow> x \<in> nodes_of roots"
| child: "Element n cs \<in> nodes_of roots \<Longrightarrow> c \<in> set cs \<Longrightarrow> c \<in> nodes_of roots"

section \<open>Errors and printed lines\<close>

text \<open>
  The exceptions of the libraries the script calls, with the message they carry where
  it is free text. \<open>HTTPError\<close> comes from \<open>response.raise_for_status()\<close> and carries
  the status code; \<open>EmptyIndexError\<close> is what \<open>open_dir\<close> raises on a directory that
  holds no index (a missing directory is listed as empty by the library's file
  storage); \<open>EOFError\<close> is raised by \<open>input()\<close> at the end of the input;
  \<open>OtherError\<close> is an exception of any other class, such as the URL parser's
  \<open>LocationParseError\<close>, which is no \<open>RequestException\<close>.
\<close>

datatype lib_error =
    RequestException string
  | HTTPError nat
  | EmptyIndexError
  | QueryParserError string
  | PipelineError string
  | EOFError
  | OtherError string

text \<open>
  What \<open>except requests.RequestException\<close> catches: the exceptions of that class,
  \<open>HTTPError\<close> among them.
\<close>

fun is_request_exception :: "lib_error \<Rightarrow> bool" where
  "is_request_exception (RequestException msg) = True"
| "is_request_exception (HTTPError status) = True"
| "is_request_exception e = False"

text \<open>
  What propagates out of a stage: the three wrappers of the script, each holding the
  exception it caught (its text is formatted into the new message), or a library
  exception that no handler of the stage catches.
\<close>

datatype exn =
    FetchFailed lib_error
  | LoadFailed lib_error
  | AnswerFailed lib_error
  | Uncaught lib_error

text \<open>
  The observable trace. \<open>Print\<close> is a line printed as it stands. The lines that start
  with a pictograph have a constructor each: \<open>Welcome\<close>, \<open>Preview\<close> (the first 300
  characters of the scraped text), \<open>AnswerLine\<close>, \<open>Goodbye\<close> and the two prompts of
  \<open>input()\<close>. \<open>FatalLine\<close> is \<open>print(f"[FATAL ERROR] {e}")\<close>. \<open>QACall\<close> records one
  invocation of the question-answering pipeline with its question and context.
\<close>

datatype event =
    Print string
  | Welcome
  | UrlPrompt
  | QuestionPrompt
  | Preview string
  | AnswerLine string
  | Goodbye
  | FatalLine exn
  | QACall string string

section \<open>The environment\<close>

text \<open>
  Everything outside the script is a parameter. \<open>http_get\<close> is
  \<open>requests.get(url, timeout=10)\<close>: the exception it raises, of the class
  \<open>RequestException\<close> or of another, or the response with its status code and parsed
  body. The search library is given
  by its query parser, by which stored texts a parsed query matches, and by the score
  of a matching text within the stored collection. \<open>load_pipeline\<close> is the failure of
  \<open>pipeline("question-answering", ...)\<close>, if any, and \<open>qa_pipeline\<close> the answer field
  of the loaded model's result, or its failure.
\<close>

record response =
  status_code :: nat
  soup :: "node list"

record 'q env =
  http_get :: "string \<Rightarrow> lib_error + response"
  qparse :: "string \<Rightarrow> lib_error + 'q"
  matches :: "'q \<Rightarrow> string \<Rightarrow> bool"
  score :: "'q \<Rightarrow> string list \<Rightarrow> string \<Rightarrow> int"
  load_pipeline :: "lib_error option"
  qa_pipeline :: "string \<Rightarrow> string \<Rightarrow> lib_error + string"

text \<open>
  The directory \<open>index/\<close>: missing, present without an index in it, or holding the
  stored texts in the order they were added.
\<close>

datatype index_dir = Absent | NoIndex | Index "string list"

section \<open>Step 1: scraping\<close>

text \<open>
  \<open>raise_for_status\<close> raises for the client and server error codes, 400 to 599, and
  for no other status.
\<close>

definition raise_for_status :: "response \<Rightarrow> lib_error option" where
  "raise_for_status r =
     (if 400 \<le> status_code r \<and> status_code r < 600 then Some (HTTPError (status_code r))
      else None)"

definition scrape_documentation :: "'q env \<Rightarrow> string \<Rightarrow> event list \<times> (exn + string)" where
  "scrape_documentation env url =
     (let started = [Print (''[STEP] Fetching documentation from: '' @ url)] in
      case http_get env url of
        Inl e \<Rightarrow>
          (if is_request_exception e then (started, Inl (FetchFailed e))
           else (started, Inl (Uncaught e)))
      | Inr r \<Rightarrow>
          (case raise_for_status r of
             Some e \<Rightarrow> (started, Inl (FetchFailed e))
           | None \<Rightarrow>
               (let content = join_nl (tag_texts (soup r)) in
                (started @ [Print ''[INFO] Content successfully scraped.'',
                            Preview (take 300 content)],
                 Inr (strip content)))))"

section \<open>Step 2: indexing\<close>

definition chunks :: "string \<Rightarrow> string list" where
  "chunks content = map strip (split_blank content)"

definition index_content :: "index_dir \<Rightarrow> string \<Rightarrow> event list \<times> (exn + index_dir)" where
  "index_content dir content =
     (let started = [Print ''[STEP] Indexing content...''];
          finished = started @ [Print ''[INFO] Content indexed.''] in
      case dir of
        Absent \<Rightarrow> (finished, Inr (Index (chunks content)))
      | NoIndex \<Rightarrow> (started, Inl (Uncaught EmptyIndexError))
      | Index docs \<Rightarrow> (finished, Inr (Index (docs @ chunks content))))"

section \<open>Step 3: searching\<close>

text \<open>
  \<open>searcher.search(parsed_query)\<close>: the matching stored texts, best score first (equal
  scores in the order of the index), cut at the default limit of ten hits.
\<close>

definition ranked :: "('a \<Rightarrow> int) \<Rightarrow> 'a list \<Rightarrow> 'a list" where
  "ranked key hits = rev (sort_key key (rev hits))"

definition searcher_search :: "'q env \<Rightarrow> string list \<Rightarrow> 'q \<Rightarrow> string list" where
  "searcher_search env docs q =
     take 10 (ranked (score env q docs) (filter (matches env q) docs))"

definition search_content ::
  "'q env \<Rightarrow> index_dir \<Rightarrow> string \<Rightarrow> event list \<times> (exn + string option)" where
  "search_content env dir query =
     (let started = [Print (''[STEP] Searching for: '' @ query)] in
      case dir of
        Absent \<Rightarrow> (started, Inl (Uncaught EmptyIndexError))
      | NoIndex \<Rightarrow> (started, Inl (Uncaught EmptyIndexError))
      | Index docs \<Rightarrow>
          (case qparse env query of
             Inl e \<Rightarrow> (started, Inl (Uncaught e))
           | Inr q \<Rightarrow>
               (case searcher_search env docs q of
                  [] \<Rightarrow> (started @ [Print ''[WARN] No relevant content found.''], Inr None)
                | best # _ \<Rightarrow>
                    (started @ [Print ''[INFO] Relevant context found.''], Inr (Some best)))))"

section \<open>Steps 4 to 6: the model\<close>

definition load_qa_model :: "'q env \<Rightarrow> event list \<times> (exn + unit)" where
  "load_qa_model env =
     (let started = [Print ''[STEP] Loading QA model...''] in
      case load_pipeline env of
        Some e \<Rightarrow> (started, Inl (LoadFailed e))
      | None \<Rightarrow>
          (started @ [Print ''[INFO] QA model loaded: deepset/minilm-uncased-squad2''],
           Inr ()))"

definition answer_query :: "'q env \<Rightarrow> string \<Rightarrow> string \<Rightarrow> event list \<times> (exn + string)" where
  "answer_query env query context =
     (let started = [Print ''[STEP] Running QA model...'', QACall query context] in
      case qa_pipeline env query context of
        Inl e \<Rightarrow> (started, Inl (AnswerFailed e))
      | Inr answer \<Rightarrow> (started, Inr answer))"

definition handle_missing_info :: string where
  "handle_missing_info =
     ''[INFO] Sorry, no relevant information was found in the documentation.''"

section \<open>The session\<close>

text \<open>
  One pass of the body of \<open>while True\<close> on the line that \<open>input()\<close> returned: the loop
  is left by \<open>break\<close>, goes on to the next line, or an exception leaves it.
  \<open>if context:\<close> is false for \<open>None\<close> and for the empty string.
\<close>

datatype step = Break "event list" | Continue "event list" | Raise "event list" exn

definition is_exit :: "string \<Rightarrow> bool" where
  "is_exit line = (lower (strip line) = ''exit'')"

definition loop_body :: "'q env \<Rightarrow> index_dir \<Rightarrow> string \<Rightarrow> step" where
  "loop_body env dir line =
     (let query = strip line in
      if lower query = ''exit'' then Break [Goodbye]
      else
        (case search_content env dir query of
           (ev, Inl e) \<Rightarrow> Raise ev e
         | (ev, Inr None) \<Rightarrow> Continue (ev @ [Print handle_missing_info])
         | (ev, Inr (Some context)) \<Rightarrow>
             (if context \<noteq> []
              then
                (case answer_query env query context of
                   (ev', Inl e) \<Rightarrow> Raise (ev @ ev') e
                 | (ev', Inr answer) \<Rightarrow> Continue (ev @ ev' @ [AnswerLine answer]))
              else Continue (ev @ [Print handle_missing_info]))))"

text \<open>
  How a session ends: \<open>Exited\<close> after the exit command, \<open>Fatal\<close> when the handler
  around the setup and the loop caught an exception and printed it, \<open>Crashed\<close> when
  an exception left \<open>main\<close> (the first \<open>input()\<close> is outside the handler).
\<close>

datatype ending = Exited | Fatal exn | Crashed lib_error

text \<open>
  The loop over the lines still to be read. The standard input is a finite list of
  lines; when it is used up, \<open>input()\<close> raises \<open>EOFError\<close>, which the handler of
  \<open>main\<close> catches like any other exception.
\<close>

fun interactive :: "'q env \<Rightarrow> index_dir \<Rightarrow> string list \<Rightarrow> event list \<times> ending" where
  "interactive env dir [] =
     ([QuestionPrompt, FatalLine (Uncaught EOFError)], Fatal (Uncaught EOFError))"
| "interactive env dir (line # rest) =
     (case loop_body env dir line of
        Break ev \<Rightarrow> (QuestionPrompt # ev, Exited)
      | Raise ev e \<Rightarrow> (QuestionPrompt # ev @ [FatalLine e], Fatal e)
      | Continue ev \<Rightarrow>
          (let (later, how) = interactive env dir rest
           in (QuestionPrompt # ev @ later, how)))"

text \<open>The three stages that run once, inside the handler.\<close>

definition setup_stages :: "'q env \<Rightarrow> index_dir \<Rightarrow> string \<Rightarrow> event list \<times> (exn + index_dir)" where
  "setup_stages env dir url =
     (case scrape_documentation env url of
        (ev1, Inl e) \<Rightarrow> (ev1, Inl e)
      | (ev1, Inr content) \<Rightarrow>
          (case index_content dir content of
             (ev2, Inl e) \<Rightarrow> (ev1 @ ev2, Inl e)
           | (ev2, Inr dir') \<Rightarrow>
               (case load_qa_model env of
                  (ev3, Inl e) \<Rightarrow> (ev1 @ ev2 @ ev3, Inl e)
                | (ev3, Inr _) \<Rightarrow> (ev1 @ ev2 @ ev3, Inr dir'))))"

definition main :: "'q env \<Rightarrow> index_dir \<Rightarrow> string list \<Rightarrow> event list \<times> ending" where
  "main env dir lines =
     (case lines of
        [] \<Rightarrow> ([Welcome, UrlPrompt], Crashed EOFError)
      | first # rest \<Rightarrow>
          (case setup_stages env dir (strip first) of
             (ev, Inl e) \<Rightarrow> ([Welcome, UrlPrompt] @ ev @ [FatalLine e], Fatal e)
           | (ev, Inr dir') \<Rightarrow>
               (let (later, how) = interactive env dir' rest
                in ([Welcome, UrlPrompt] @ ev @ later, how))))"

section \<open>An example page and example environments\<close>

text \<open>
  The page \<open><h1>Setup</h1><p>Run init() first.</p>\<close> as parsed, and the text scraped
  from it.
\<close>

definition setup_page :: "node list" where
  "setup_page = [Element ''h1'' [Text ''Setup''], Element ''p'' [Text ''Run init() first.'']]"

definition setup_text :: string where
  "setup_text = ''Setup'' @ CHR 0x0A # ''Run init() first.''"

text \<open>
  A small concrete environment: every URL gives the same outcome of the request (the
  message of a \<open>RequestException\<close>, or a response), a query is its own parse, the query
  \<open>*:*\<close> matches every stored text and any other query that is not empty matches the
  stored texts it occurs in, all scores are equal, the model loads and gives the same
  result for every question.
\<close>

definition fixed_env :: "string + response \<Rightarrow> lib_error + string \<Rightarrow> string env" where
  "fixed_env fetched answer =
     \<lparr>http_get = (\<lambda>url. case fetched of Inl msg \<Rightarrow> Inl (RequestException msg)
                              | Inr r \<Rightarrow> Inr r),
      qparse = Inr,
      matches = (\<lambda>q d. q = ''*:*'' \<or> (q \<noteq> [] \<and> sublist q d)),
      score = (\<lambda>q docs d. 0), load_pipeline = None,
      qa_pipeline = (\<lambda>question context. answer)\<rparr>"

section \<open>Facts about the string operations\<close>

lemma sublist_strip: "sublist (strip s) s"
proof -
  have "sublist (dropWhile isspace (rev (dropWhile isspace s))) (rev (dropWhile isspace s))"
    by (rule sublist_dropWhile)
  then have "sublist (strip s) (dropWhile isspace s)"
    by (simp add: strip_def sublist_rev_left)
  moreover have "sublist (dropWhile isspace s) s" by (rule sublist_dropWhile)
  ultimately show ?thesis by (meson sublist_order.order.trans)
qed

lemma dropWhile_keeps:
  "c \<noteq> [] \<Longrightarrow> \<not> P (hd c) \<Longrightarrow> \<exists>x'. dropWhile P (x @ c @ y) = x' @ c @ y"
proof (induction x)
  case Nil
  then show ?case by (cases c) auto
next
  case (Cons a x)
  then show ?case by (cases "P a") (auto intro: exI[of _ "a # x"])
qed

lemma strip_keeps:
  assumes "c \<noteq> []" "\<not> isspace (hd c)" "\<not> isspace (last c)"
  shows "\<exists>x' y'. strip (x @ c @ y) = x' @ c @ y'"
proof -
  obtain x' where a: "dropWhile isspace (x @ c @ y) = x' @ c @ y"
    using dropWhile_keeps[of c isspace x y] assms by blast
  have "rev c \<noteq> []" "\<not> isspace (hd (rev c))"
    using assms by (simp_all add: hd_rev)
  then obtain y' where b: "dropWhile isspace (rev y @ rev c @ rev x') = y' @ rev c @ rev x'"
    using dropWhile_keeps[of "rev c" isspace "rev y" "rev x'"] by blast
  have "strip (x @ c @ y) = x' @ c @ rev y'"
    by (simp add: strip_def a b)
  then show ?thesis by blast
qed

lemma last_dropWhile_nonempty: "dropWhile P xs \<noteq> [] \<Longrightarrow> last (dropWhile P xs) = last xs"
  by (induction xs) (auto split: if_splits)

lemma strip_ends:
  assumes "strip t \<noteq> []"
  shows "\<not> isspace (hd (strip t))" "\<not> isspace (last (strip t))"
proof -
  let ?u = "dropWhile isspace t"
  let ?v = "dropWhile isspace (rev ?u)"
  have v: "?v \<noteq> []" using assms by (simp add: strip_def)
  have u: "?u \<noteq> []"
  proof
    assume "?u = []"
    then have "?v = []" by (simp only: rev.simps dropWhile.simps)
    with v show False by simp
  qed
  have "last (strip t) = hd ?v" by (simp add: strip_def last_rev)
  then show "\<not> isspace (last (strip t))" using hd_dropWhile[OF v] by simp
  have "hd (strip t) = last ?v" by (simp add: strip_def hd_rev)
  also have "\<dots> = last (rev ?u)" by (rule last_dropWhile_nonempty[OF v])
  also have "\<dots> = hd ?u" by (simp add: last_rev)
  finally show "\<not> isspace (hd (strip t))" using hd_dropWhile[OF u] by simp
qed

lemma strip_fixed:
  assumes "s = [] \<or> (\<not> isspace (hd s) \<and> \<not> isspace (last s))"
  shows "strip s = s"
proof (cases "s = []")
  case True then show ?thesis by (simp add: strip_def)
next
  case False
  with assms have h: "\<not> isspace (hd s)" "\<not> isspace (last s)" by auto
  have 1: "dropWhile isspace s = s" using False h(1) by (cases s) auto
  have "rev s \<noteq> []" "\<not> isspace (hd (rev s))" using False h(2) by (simp_all add: hd_rev)
  then have 2: "dropWhile isspace (rev s) = rev s" by (cases "rev s") auto
  show ?thesis by (simp add: strip_def 1 2)
qed

lemma strip_strip: "strip (strip s) = strip s"
  using strip_ends[of s] by (intro strip_fixed) blast

lemma strip_nonempty:
  assumes "\<exists>c\<in>set t. \<not> isspace c"
  shows "strip t \<noteq> []"
proof -
  let ?u = "dropWhile isspace t"
  have u: "?u \<noteq> []" using assms by (simp add: dropWhile_eq_Nil_conv)
  then have "\<not> isspace (hd ?u)" by (rule hd_dropWhile)
  moreover have "hd ?u \<in> set (rev ?u)" using u by simp
  ultimately have "\<exists>c\<in>set (rev ?u). \<not> isspace c" by blast
  then have "dropWhile isspace (rev ?u) \<noteq> []"
    by (simp only: dropWhile_eq_Nil_conv) blast
  then show ?thesis by (simp add: strip_def)
qed

lemma sublist_strip_context: "sublist (strip t) (strip (pre @ t @ post))"
proof (cases "strip t = []")
  case True then show ?thesis by simp
next
  case False
  obtain a b where t: "t = a @ strip t @ b"
    using sublist_strip[of t] unfolding sublist_def by blast
  have e: "pre @ t @ post = (pre @ a) @ strip t @ (b @ post)"
    by (subst t) simp
  obtain x' y' where "strip ((pre @ a) @ strip t @ (b @ post)) = x' @ strip t @ y'"
    using strip_keeps[OF False strip_ends[OF False]] by blast
  then have "strip (pre @ t @ post) = x' @ strip t @ y'"
    by (simp only: e)
  then show ?thesis by (metis sublist_appendI)
qed

lemma join_nl_Cons: "join_nl (t # ts) = t @ (if ts = [] then [] else CHR 0x0A # join_nl ts)"
  by (cases ts) auto

lemma join_nl_member: "t \<in> set ts \<Longrightarrow> \<exists>pre post. join_nl ts = pre @ t @ post"
proof (induction ts)
  case Nil then show ?case by simp
next
  case (Cons a ts)
  show ?case
  proof (cases "t = a")
    case True
    have "join_nl (a # ts) = [] @ t @ (if ts = [] then [] else CHR 0x0A # join_nl ts)"
      using True by (simp add: join_nl_Cons)
    then show ?thesis by blast
  next
    case False
    with Cons.prems have m: "t \<in> set ts" by simp
    then have ne: "ts \<noteq> []" by auto
    from Cons.IH[OF m] obtain pre post where j: "join_nl ts = pre @ t @ post" by blast
    have "join_nl (a # ts) = (a @ CHR 0x0A # pre) @ t @ post"
      using ne j by (simp add: join_nl_Cons)
    then show ?thesis by blast
  qed
qed

section \<open>Facts about splitting, joining and ranking\<close>

lemma split_acc_whole:
  "\<not> sublist [CHR 0x0A, CHR 0x0A] s \<Longrightarrow> split_acc cur s = [rev cur @ s]"
proof (induction cur s rule: split_acc.induct)
  case (1 cur) then show ?case by simp
next
  case (2 cur c) then show ?case by simp
next
  case (3 cur c d cs)
  from "3.prems" have np: "\<not> (c = CHR 0x0A \<and> d = CHR 0x0A)"
    and ns: "\<not> sublist [CHR 0x0A, CHR 0x0A] (d # cs)"
    by (auto simp: sublist_Cons_right)
  from "3.IH"(2)[OF np ns] np show ?case by simp
qed

lemma split_blank_whole: "\<not> sublist [CHR 0x0A, CHR 0x0A] s \<Longrightarrow> split_blank s = [s]"
  by (simp add: split_blank_def split_acc_whole)

lemma prefix_pair: "prefix [a, b] zs \<longleftrightarrow> (\<exists>r. zs = a # b # r)"
  by (auto simp: prefix_def)

lemma sublist_pair_append:
  "sublist [a, b] (xs @ ys) \<longleftrightarrow>
     sublist [a, b] xs \<or> sublist [a, b] ys \<or> (xs \<noteq> [] \<and> ys \<noteq> [] \<and> last xs = a \<and> hd ys = b)"
proof (induction xs)
  case Nil
  then show ?case by simp
next
  case (Cons x xs)
  show ?case
  proof (cases xs)
    case Nil
    then show ?thesis
      by (cases ys) (auto simp: sublist_Cons_right prefix_pair)
  next
    case (Cons x' xs')
    with Cons.IH show ?thesis
      by (auto simp: sublist_Cons_right prefix_pair)
  qed
qed

lemma join_nl_no_blank:
  assumes "\<forall>t\<in>set ts. t \<noteq> [] \<and> hd t \<noteq> CHR 0x0A \<and> last t \<noteq> CHR 0x0A
             \<and> \<not> sublist [CHR 0x0A, CHR 0x0A] t"
  shows "\<not> sublist [CHR 0x0A, CHR 0x0A] (join_nl ts)"
  using assms
proof (induction ts rule: join_nl.induct)
  case 1 then show ?case by simp
next
  case (2 t) then show ?case by simp
next
  case (3 t u ts)
  let ?r = "join_nl (u # ts)"
  have r: "\<not> sublist [CHR 0x0A, CHR 0x0A] ?r" using 3 by simp
  have u: "u \<noteq> []" "hd u \<noteq> CHR 0x0A" using "3.prems" by simp_all
  have hr: "?r \<noteq> []" "hd ?r \<noteq> CHR 0x0A" using u by (simp_all add: join_nl_Cons)
  have t: "t \<noteq> []" "last t \<noteq> CHR 0x0A" "\<not> sublist [CHR 0x0A, CHR 0x0A] t"
    using "3.prems" by simp_all
  have "\<not> sublist [CHR 0x0A, CHR 0x0A] (CHR 0x0A # ?r)"
    using r hr by (cases ?r) (auto simp: sublist_Cons_right)
  then have "\<not> sublist [CHR 0x0A, CHR 0x0A] (t @ CHR 0x0A # ?r)"
    using t by (simp add: sublist_pair_append)
  then show ?case by simp
qed

lemma mset_ranked: "mset (ranked key hits) = mset hits"
  by (simp add: ranked_def)

lemma set_ranked: "set (ranked key hits) = set hits"
  by (simp add: ranked_def)

lemma ranked_empty: "ranked key hits = [] \<longleftrightarrow> hits = []"
  using mset_ranked[of key hits] by (metis mset_zero_iff)

lemma searcher_search_subset:
  "set (searcher_search env docs q) \<subseteq> {d \<in> set docs. matches env q d}"
  using set_take_subset[of 10 "ranked (score env q docs) (filter (matches env q) docs)"]
  by (auto simp: searcher_search_def set_ranked)

lemma searcher_search_empty:
  "searcher_search env docs q = [] \<longleftrightarrow> (\<forall>d\<in>set docs. \<not> matches env q d)"
  by (simp add: searcher_search_def ranked_empty filter_empty_conv)

lemma searcher_search_unique:
  assumes "c \<in> set docs" "matches env q c" "\<forall>d\<in>set docs. matches env q d \<longrightarrow> d = c"
  shows "\<exists>others. searcher_search env docs q = c # others"
proof (cases "searcher_search env docs q")
  case Nil
  then have "\<forall>d\<in>set docs. \<not> matches env q d" by (simp only: searcher_search_empty)
  with assms(1,2) show ?thesis by blast
next
  case (Cons h others)
  then have "h \<in> set (searcher_search env docs q)" by simp
  with searcher_search_subset[of env docs q] assms(3) have "h = c" by blast
  with Cons show ?thesis by simp
qed

section \<open>Facts about the stages\<close>

lemma loop_body_exit: "is_exit line \<Longrightarrow> loop_body env dir line = Break [Goodbye]"
  by (simp add: loop_body_def is_exit_def)

lemma loop_body_Break: "loop_body env dir line = Break ev \<Longrightarrow> is_exit line"
  by (auto simp: loop_body_def is_exit_def Let_def
           split: if_splits prod.splits sum.splits option.splits)

lemma search_content_Absent:
  "search_content env Absent query =
     ([Print (''[STEP] Searching for: '' @ query)], Inl (Uncaught EmptyIndexError))"
  by (simp add: search_content_def)

lemma search_content_no_hits:
  "qparse env query = Inr q \<Longrightarrow> searcher_search env docs q = [] \<Longrightarrow>
   search_content env (Index docs) query =
     ([Print (''[STEP] Searching for: '' @ query), Print ''[WARN] No relevant content found.''],
      Inr None)"
  by (simp add: search_content_def)

lemma search_content_hit:
  "qparse env query = Inr q \<Longrightarrow> searcher_search env docs q = best # others \<Longrightarrow>
   search_content env (Index docs) query =
     ([Print (''[STEP] Searching for: '' @ query), Print ''[INFO] Relevant context found.''],
      Inr (Some best))"
  by (simp add: search_content_def)

lemma searcher_search_Nil: "searcher_search env [] q = []"
  by (simp add: searcher_search_def ranked_def)

lemma strip_examples:
  "strip ''xyzzy'' = ''xyzzy''" "lower ''xyzzy'' \<noteq> ''exit''"
  "strip ''*:*'' = ''*:*''" "lower ''*:*'' \<noteq> ''exit''"
  by (simp_all add: strip_def isspace_def lower_def)

lemma exit_examples: "lower (strip ''EXIT'') = ''exit''" "lower (strip ''  Exit '') = ''exit''"
  by code_simp+

lemma no_hit_xyzzy: "searcher_search (fixed_env f a) [setup_text] ''xyzzy'' = []"
  by (simp add: searcher_search_empty fixed_env_def setup_text_def sublist_Cons_right)

lemma hit_empty_text: "searcher_search (fixed_env f a) [[]] ''*:*'' = [[]]"
  by (simp add: searcher_search_def ranked_def fixed_env_def)

section \<open>The retriever without an index\<close>

text \<open>
  Claim C1 says that the retriever, called while the index directory does not exist,
  returns the not-found signal for every query and raises nothing. The code opens the
  index first, and opening a directory that is not there raises: at the query
  \<open>init\<close> the result is not the not-found signal.
\<close>

theorem search_content_absent_not_none:
  "snd (search_content (fixed_env (Inl ''offline'') (Inr ''init()'')) Absent ''init'')
     \<noteq> Inr None"
  by (simp add: search_content_def)

text \<open>
  Claim C1, amended: while the index directory does not exist, the retriever raises the
  library's empty-index error for every query, after printing its search line; on an
  index that exists and holds no entries, every query that parses gets the not-found
  signal.
\<close>

theorem search_content_without_index:
  "search_content env Absent query =
     ([Print (''[STEP] Searching for: '' @ query)], Inl (Uncaught EmptyIndexError))
   \<and> (qparse env query = Inr q \<longrightarrow>
        search_content env (Index []) query =
          ([Print (''[STEP] Searching for: '' @ query),
            Print ''[WARN] No relevant content found.''], Inr None))"
  by (simp add: search_content_Absent search_content_no_hits searcher_search_Nil)

theorem search_content_without_index_witness:
  "qparse (fixed_env (Inl ''offline'') (Inr ''init()'')) ''init'' = Inr ''init''
   \<and> snd (search_content (fixed_env (Inl ''offline'') (Inr ''init()'')) (Index []) ''init'')
       = Inr None
   \<and> snd (search_content (fixed_env (Inl ''offline'') (Inr ''init()'')) Absent ''init'')
       = Inl (Uncaught EmptyIndexError)"
  using search_content_without_index
          [of "fixed_env (Inl ''offline'') (Inr ''init()'')" "''init''" "''init''"]
  by (simp add: fixed_env_def)

section \<open>Queries without a usable hit\<close>

text \<open>
  Claim C7: a query with zero hits is no error. The pass of the loop prints the
  message that no relevant information was found, as \<open>handle_missing_info\<close> words it,
  after the retriever's two lines, does not call the question-answering model (the
  trace of the pass has no \<open>QACall\<close>), and the loop goes on with the next line.
\<close>

theorem no_hits_reported_and_loop_continues:
  assumes "\<not> is_exit line" and "qparse env (strip line) = Inr q"
    and "searcher_search env docs q = []"
  shows "loop_body env (Index docs) line =
           Continue [Print (''[STEP] Searching for: '' @ strip line),
                     Print ''[WARN] No relevant content found.'',
                     Print ''[INFO] Sorry, no relevant information was found in the documentation.'']
         \<and> interactive env (Index docs) (line # rest) =
             (QuestionPrompt #
              [Print (''[STEP] Searching for: '' @ strip line),
               Print ''[WARN] No relevant content found.'',
               Print ''[INFO] Sorry, no relevant information was found in the documentation.''] @ fst (interactive env (Index docs) rest),
              snd (interactive env (Index docs) rest))"
proof -
  have "loop_body env (Index docs) line =
           Continue [Print (''[STEP] Searching for: '' @ strip line),
                     Print ''[WARN] No relevant content found.'',
                     Print ''[INFO] Sorry, no relevant information was found in the documentation.'']"
    using assms
    by (simp add: loop_body_def is_exit_def search_content_no_hits handle_missing_info_def)
  then show ?thesis by (simp add: case_prod_beta)
qed

theorem no_hits_reported_witness:
  "loop_body (fixed_env (Inl ''offline'') (Inr ''init()'')) (Index [setup_text]) ''xyzzy'' =
     Continue [Print ''[STEP] Searching for: xyzzy'',
               Print ''[WARN] No relevant content found.'',
               Print ''[INFO] Sorry, no relevant information was found in the documentation.'']"
  using no_hits_reported_and_loop_continues
          [of "''xyzzy''" "fixed_env (Inl ''offline'') (Inr ''init()'')" "''xyzzy''"
              "[setup_text]" "[]"]
  by (simp add: is_exit_def strip_examples no_hit_xyzzy) (simp add: fixed_env_def)

text \<open>
  Claim C9: when the best hit's stored text is the empty string, the session takes the
  branch it takes without hits: the pass prints the same message that no relevant
  information was found, does not call the question-answering model, and the loop goes
  on. Only the retriever's own line tells the two cases apart, since retrieval did
  return a hit. The query \<open>*:*\<close> on an index holding an empty entry is an instance.
\<close>

theorem empty_top_hit_reported_as_missing:
  assumes "\<not> is_exit line" and "qparse env (strip line) = Inr q"
    and "searcher_search env docs q = [] # others"
  shows "loop_body env (Index docs) line =
           Continue [Print (''[STEP] Searching for: '' @ strip line),
                     Print ''[INFO] Relevant context found.'',
                     Print ''[INFO] Sorry, no relevant information was found in the documentation.'']
         \<and> interactive env (Index docs) (line # rest) =
             (QuestionPrompt #
              [Print (''[STEP] Searching for: '' @ strip line),
               Print ''[INFO] Relevant context found.'',
               Print ''[INFO] Sorry, no relevant information was found in the documentation.''] @ fst (interactive env (Index docs) rest),
              snd (interactive env (Index docs) rest))"
proof -
  have "loop_body env (Index docs) line =
           Continue [Print (''[STEP] Searching for: '' @ strip line),
                     Print ''[INFO] Relevant context found.'',
                     Print ''[INFO] Sorry, no relevant information was found in the documentation.'']"
    using assms
    by (simp add: loop_body_def is_exit_def search_content_hit handle_missing_info_def)
  then show ?thesis by (simp add: case_prod_beta)
qed

theorem empty_top_hit_witness:
  "loop_body (fixed_env (Inl ''offline'') (Inr ''init()'')) (Index [[]]) ''*:*'' =
     Continue [Print ''[STEP] Searching for: *:*'',
               Print ''[INFO] Relevant context found.'',
               Print ''[INFO] Sorry, no relevant information was found in the documentation.'']"
  using empty_top_hit_reported_as_missing
          [of "''*:*''" "fixed_env (Inl ''offline'') (Inr ''init()'')" "''*:*''" "[[]]" "[]" "[]"]
  by (simp add: is_exit_def strip_examples hit_empty_text) (simp add: fixed_env_def)

section \<open>The exit command\<close>

text \<open>
  Claim C10: the exit command is matched after trimming and lower-casing. A pass of the
  loop leaves it by \<open>break\<close> exactly for the lines that, trimmed and lower-cased, are
  \<open>exit\<close>; for such a line the pass prints the goodbye line and the session ends at
  once, whatever lines follow. The lines \<open>EXIT\<close> and \<open>  Exit \<close> are instances.
\<close>

theorem exit_command_matching:
  "((\<exists>ev. loop_body env dir line = Break ev) \<longleftrightarrow> lower (strip line) = ''exit'')
   \<and> (lower (strip line) = ''exit'' \<longrightarrow>
        loop_body env dir line = Break [Goodbye]
        \<and> interactive env dir (line # rest) = ([QuestionPrompt, Goodbye], Exited))"
  using loop_body_Break[of env dir line] loop_body_exit[of line env dir]
  by (auto simp: is_exit_def)

theorem exit_command_matching_witness:
  "interactive (fixed_env (Inl ''offline'') (Inr ''init()'')) Absent [''  Exit '', ''init'']
     = ([QuestionPrompt, Goodbye], Exited)
   \<and> loop_body (fixed_env (Inl ''offline'') (Inr ''init()'')) Absent ''EXIT'' = Break [Goodbye]"
  using exit_command_matching
          [of "fixed_env (Inl ''offline'') (Inr ''init()'')" Absent "''  Exit ''" "[''init'']"]
        exit_command_matching
          [of "fixed_env (Inl ''offline'') (Inr ''init()'')" Absent "''EXIT''" "[]"]
        exit_examples
  by simp

section \<open>Facts about scraping\<close>

lemma scrape_ok:
  "http_get env url = Inr r \<Longrightarrow> raise_for_status r = None \<Longrightarrow>
   scrape_documentation env url =
     ([Print (''[STEP] Fetching documentation from: '' @ url),
       Print ''[INFO] Content successfully scraped.'',
       Preview (take 300 (join_nl (tag_texts (soup r))))],
      Inr (strip (join_nl (tag_texts (soup r)))))"
  by (simp add: scrape_documentation_def Let_def)

lemma setup_page_texts: "join_nl (tag_texts setup_page) = setup_text"
  by (simp add: tag_texts_def soup_find_all_def setup_page_def setup_text_def)

lemma strip_setup_text: "strip setup_text = setup_text"
  by (rule strip_fixed) (simp add: setup_text_def isspace_def)

lemma strip_hi: "strip '' hi '' = ''hi''" "strip [] = []"
  by (simp_all add: strip_def isspace_def)

text \<open>What \<open>find_all\<close> finds: the elements of the page with a listed name, all of them.\<close>

lemma find_all_below:
  "x \<in> nodes_of roots \<Longrightarrow> set (find_all names x) \<subseteq> set (soup_find_all names roots)"
proof (induction rule: nodes_of.induct)
  case (root x)
  then show ?case by (auto simp: soup_find_all_def)
next
  case (child n cs c)
  have "set (find_all names c) \<subseteq> set (find_all names (Element n cs))"
    using child.hyps(2) by auto
  with child.IH show ?case by blast
qed

lemma find_all_complete:
  assumes "Element n cs \<in> nodes_of roots" and "n \<in> set names"
  shows "Element n cs \<in> set (soup_find_all names roots)"
proof -
  have "Element n cs \<in> set (find_all names (Element n cs))" using assms(2) by simp
  with find_all_below[OF assms(1), of names] show ?thesis by blast
qed

lemma find_all_sound:
  "x \<in> set (find_all names y) \<Longrightarrow> y \<in> nodes_of roots \<Longrightarrow>
   x \<in> nodes_of roots \<and> (\<exists>n cs. x = Element n cs \<and> n \<in> set names)"
proof (induction names y rule: find_all.induct)
  case (1 names k s)
  then show ?case by simp
next
  case (2 names n cs)
  show ?case
  proof (cases "x = Element n cs \<and> n \<in> set names")
    case True
    with "2.prems"(2) show ?thesis by blast
  next
    case False
    with "2.prems"(1) obtain c where c: "c \<in> set cs" "x \<in> set (find_all names c)"
      by (auto split: if_splits)
    have "c \<in> nodes_of roots" using "2.prems"(2) c(1) by (rule nodes_of.child)
    with "2.IH"[OF c(1) c(2)] show ?thesis by blast
  qed
qed

lemma soup_find_all_sound:
  assumes "x \<in> set (soup_find_all names roots)"
  shows "x \<in> nodes_of roots \<and> (\<exists>n cs. x = Element n cs \<and> n \<in> set names)"
proof -
  from assms obtain y where y: "y \<in> set roots" "x \<in> set (find_all names y)"
    by (auto simp: soup_find_all_def)
  have "y \<in> nodes_of roots" using y(1) by (rule nodes_of.root)
  with find_all_sound[OF y(2)] show ?thesis by blast
qed

section \<open>Failed requests\<close>

text \<open>
  Claim C5 says that the fetch stage raises for every request that fails or returns a
  status outside 200 to 299. \<open>raise_for_status\<close> raises for the error codes only: a
  response with status 304, which has no body, passes it, and the stage returns the
  empty text it scraped instead of raising.
\<close>

theorem scrape_returns_on_status_304:
  "snd (scrape_documentation
          (fixed_env (Inr \<lparr>status_code = 304, soup = []\<rparr>) (Inr ''init()''))
          ''http://docs.test'') = Inr []"
  by (simp add: scrape_documentation_def Let_def raise_for_status_def fixed_env_def
                tag_texts_def soup_find_all_def strip_hi)

text \<open>
  Claim C5, amended: for every URL whose request raises an exception of the class
  \<open>RequestException\<close> (network error, timeout) or returns a status from 400 to 599, the
  fetch stage raises the fetch error that holds the underlying exception, after
  printing its first line only. An exception of another class that the request raises
  leaves the stage as it is, not wrapped. In none of these cases is content returned.
  For every other status, inside 200 to 299 or not, the stage does not fail: it returns
  the trimmed text scraped from the body.
\<close>

theorem scrape_fails_on_request_or_http_error:
  "(http_get env url = Inl e \<and> is_request_exception e \<longrightarrow>
      scrape_documentation env url =
        ([Print (''[STEP] Fetching documentation from: '' @ url)], Inl (FetchFailed e)))
   \<and> (http_get env url = Inl e \<and> \<not> is_request_exception e \<longrightarrow>
      scrape_documentation env url =
        ([Print (''[STEP] Fetching documentation from: '' @ url)], Inl (Uncaught e)))
   \<and> (http_get env url = Inr r \<and> 400 \<le> status_code r \<and> status_code r < 600 \<longrightarrow>
      scrape_documentation env url =
        ([Print (''[STEP] Fetching documentation from: '' @ url)],
         Inl (FetchFailed (HTTPError (status_code r)))))
   \<and> (http_get env url = Inr r \<and> \<not> (400 \<le> status_code r \<and> status_code r < 600) \<longrightarrow>
      snd (scrape_documentation env url) = Inr (strip (join_nl (tag_texts (soup r)))))"
  by (simp add: scrape_documentation_def Let_def raise_for_status_def)

theorem scrape_fails_on_request_or_http_error_witness:
  "snd (scrape_documentation (fixed_env (Inl ''timed out'') (Inr ''init()'')) ''http://docs.test'')
     = Inl (FetchFailed (RequestException ''timed out''))
   \<and> snd (scrape_documentation
            ((fixed_env (Inl ''timed out'') (Inr ''init()''))
               \<lparr>http_get := \<lambda>url. Inl (OtherError ''Failed to parse'')\<rparr>)
            ''http://docs.test'')
     = Inl (Uncaught (OtherError ''Failed to parse''))
   \<and> snd (scrape_documentation
            (fixed_env (Inr \<lparr>status_code = 404, soup = setup_page\<rparr>) (Inr ''init()''))
            ''http://docs.test'')
     = Inl (FetchFailed (HTTPError 404))
   \<and> snd (scrape_documentation
            (fixed_env (Inr \<lparr>status_code = 200, soup = setup_page\<rparr>) (Inr ''init()''))
            ''http://docs.test'')
     = Inr setup_text"
  using scrape_fails_on_request_or_http_error
          [of "fixed_env (Inl ''timed out'') (Inr ''init()'')" "''http://docs.test''"
              "RequestException ''timed out''" "\<lparr>status_code = 404, soup = setup_page\<rparr>"]
        scrape_fails_on_request_or_http_error
          [of "(fixed_env (Inl ''timed out'') (Inr ''init()''))
                 \<lparr>http_get := \<lambda>url. Inl (OtherError ''Failed to parse'')\<rparr>"
              "''http://docs.test''"
              "OtherError ''Failed to parse''" "\<lparr>status_code = 404, soup = setup_page\<rparr>"]
        scrape_fails_on_request_or_http_error
          [of "fixed_env (Inr \<lparr>status_code = 404, soup = setup_page\<rparr>) (Inr ''init()'')"
              "''http://docs.test''"
              "RequestException ''timed out''" "\<lparr>status_code = 404, soup = setup_page\<rparr>"]
        scrape_fails_on_request_or_http_error
          [of "fixed_env (Inr \<lparr>status_code = 200, soup = setup_page\<rparr>) (Inr ''init()'')"
              "''http://docs.test''"
              "RequestException ''timed out''" "\<lparr>status_code = 200, soup = setup_page\<rparr>"]
  by (simp add: fixed_env_def setup_page_texts strip_setup_text)

section \<open>What the fetch stage returns\<close>

text \<open>
  Claim C3 says that for a page with at least one paragraph or heading of any level the
  fetch stage returns a non-empty string that contains the tag's text. The code
  extracts \<open>p\<close>, \<open>h1\<close>, \<open>h2\<close> and \<open>h3\<close> only, and trims the joined text: a page whose only
  tag is an \<open>h4\<close> heading gives the empty string, and the paragraph \<open> hi \<close> gives
  \<open>hi\<close>, which does not contain the paragraph's text with its blanks.
\<close>

theorem scrape_misses_h4_and_trims:
  "snd (scrape_documentation
          (fixed_env (Inr \<lparr>status_code = 200, soup = [Element ''h4'' [Text ''Title'']]\<rparr>)
             (Inr ''init()'')) ''http://docs.test'') = Inr []
   \<and> snd (scrape_documentation
          (fixed_env (Inr \<lparr>status_code = 200, soup = [Element ''p'' [Text '' hi '']]\<rparr>)
             (Inr ''init()'')) ''http://docs.test'') = Inr ''hi''
   \<and> \<not> sublist '' hi '' ''hi''"
  by (simp add: scrape_documentation_def Let_def raise_for_status_def fixed_env_def
                tag_texts_def soup_find_all_def strip_hi sublist_Cons_right)

text \<open>
  Claim C3, amended: for a request that succeeds with a status outside 400 to 599, and
  every element named \<open>p\<close>, \<open>h1\<close>, \<open>h2\<close> or \<open>h3\<close> anywhere in the page whose text (its
  ordinary strings, without comments and without the content of \<open>script\<close>, \<open>style\<close> and
  the like) has a character that is not white space, the fetch stage returns a
  non-empty string that contains that text trimmed of its surrounding white space. A
  page without an element of these four names, whatever other headings it has, gives
  the empty string.
\<close>

theorem scrape_contains_trimmed_tag_text:
  assumes "http_get env url = Inr r" and "raise_for_status r = None"
  shows "(\<forall>n cs. Element n cs \<in> nodes_of (soup r)
             \<and> n \<in> {''p'', ''h1'', ''h2'', ''h3''}
             \<and> (\<exists>c\<in>set (get_text (Element n cs)). \<not> isspace c)
           \<longrightarrow> (\<exists>s. snd (scrape_documentation env url) = Inr s \<and> s \<noteq> []
                    \<and> sublist (strip (get_text (Element n cs))) s))
         \<and> ((\<forall>n cs. Element n cs \<in> nodes_of (soup r)
                \<longrightarrow> n \<notin> {''p'', ''h1'', ''h2'', ''h3''})
              \<longrightarrow> snd (scrape_documentation env url) = Inr [])"
proof (intro conjI allI impI)
  fix n cs
  assume a: "Element n cs \<in> nodes_of (soup r) \<and> n \<in> {''p'', ''h1'', ''h2'', ''h3''}
             \<and> (\<exists>c\<in>set (get_text (Element n cs)). \<not> isspace c)"
  let ?t = "get_text (Element n cs)"
  let ?s = "strip (join_nl (tag_texts (soup r)))"
  have res: "snd (scrape_documentation env url) = Inr ?s"
    using assms by (simp add: scrape_ok)
  have "Element n cs \<in> set (soup_find_all [''p'', ''h1'', ''h2'', ''h3''] (soup r))"
    using a by (intro find_all_complete) simp_all
  then have "?t \<in> set (tag_texts (soup r))"
    unfolding tag_texts_def set_map by (rule imageI)
  then obtain pre post where "join_nl (tag_texts (soup r)) = pre @ ?t @ post"
    using join_nl_member by blast
  then have sub: "sublist (strip ?t) ?s"
    using sublist_strip_context[of ?t pre post] by simp
  have "strip ?t \<noteq> []" using a by (intro strip_nonempty) blast
  with sub have "?s \<noteq> []" by auto
  with res sub
  show "\<exists>s. snd (scrape_documentation env url) = Inr s \<and> s \<noteq> [] \<and> sublist (strip ?t) s"
    by blast
next
  assume none: "\<forall>n cs. Element n cs \<in> nodes_of (soup r)
                  \<longrightarrow> n \<notin> {''p'', ''h1'', ''h2'', ''h3''}"
  have "soup_find_all [''p'', ''h1'', ''h2'', ''h3''] (soup r) = []"
  proof (rule ccontr)
    assume "soup_find_all [''p'', ''h1'', ''h2'', ''h3''] (soup r) \<noteq> []"
    then have "hd (soup_find_all [''p'', ''h1'', ''h2'', ''h3''] (soup r))
                 \<in> set (soup_find_all [''p'', ''h1'', ''h2'', ''h3''] (soup r))"
      by (rule hd_in_set)
    then obtain x where "x \<in> set (soup_find_all [''p'', ''h1'', ''h2'', ''h3''] (soup r))"
      by blast
    from soup_find_all_sound[OF this] none show False by auto
  qed
  then have "tag_texts (soup r) = []" by (simp add: tag_texts_def)
  then show "snd (scrape_documentation env url) = Inr []"
    using assms by (simp add: scrape_ok strip_hi)
qed

theorem scrape_contains_trimmed_tag_text_witness:
  "(\<exists>s. snd (scrape_documentation
          (fixed_env (Inr \<lparr>status_code = 200,
               soup = [Element ''div'' [Element ''p'' [Text '' hi '', Str Script ''x()'']]]\<rparr>)
             (Inr ''init()'')) ''http://docs.test'') = Inr s \<and> s \<noteq> [] \<and> sublist ''hi'' s)
   \<and> snd (scrape_documentation
          (fixed_env (Inr \<lparr>status_code = 200,
               soup = [Element ''div'' [Element ''h5'' [Text ''Notes'']]]\<rparr>)
             (Inr ''init()'')) ''http://docs.test'') = Inr []"
proof -
  let ?p = "Element ''p'' [Text '' hi '', Str Script ''x()'']"
  let ?r1 = "\<lparr>status_code = 200, soup = [Element ''div'' [?p]]\<rparr>"
  let ?r2 = "\<lparr>status_code = 200, soup = [Element ''div'' [Element ''h5'' [Text ''Notes'']]]\<rparr>"
  let ?e1 = "fixed_env (Inr ?r1) (Inr ''init()'')"
  let ?e2 = "fixed_env (Inr ?r2) (Inr ''init()'')"
  have h1: "http_get ?e1 ''http://docs.test'' = Inr ?r1" "raise_for_status ?r1 = None"
    by (simp_all add: fixed_env_def raise_for_status_def)
  have h2: "http_get ?e2 ''http://docs.test'' = Inr ?r2" "raise_for_status ?r2 = None"
    by (simp_all add: fixed_env_def raise_for_status_def)
  have "Element ''div'' [?p] \<in> nodes_of (soup ?r1)"
    by (rule nodes_of.root) simp
  then have m: "?p \<in> nodes_of (soup ?r1)"
    by (rule nodes_of.child) simp
  have t: "get_text ?p = '' hi ''" by simp
  have "\<exists>c\<in>set (get_text ?p). \<not> isspace c"
    unfolding t by (rule bexI[of _ "CHR ''h''"]) (simp_all add: isspace_def)
  with m have "\<exists>s. snd (scrape_documentation ?e1 ''http://docs.test'') = Inr s \<and> s \<noteq> []
                 \<and> sublist (strip (get_text ?p)) s"
    using scrape_contains_trimmed_tag_text[OF h1, THEN conjunct1, rule_format,
            of "''p''" "[Text '' hi '', Str Script ''x()'']"]
    by simp
  then have 1: "\<exists>s. snd (scrape_documentation ?e1 ''http://docs.test'') = Inr s \<and> s \<noteq> []
                 \<and> sublist ''hi'' s"
    by (simp only: t strip_hi)
  have "\<forall>n cs. Element n cs \<in> nodes_of (soup ?r2) \<longrightarrow> n \<notin> {''p'', ''h1'', ''h2'', ''h3''}"
  proof (intro allI impI)
    fix n cs
    assume "Element n cs \<in> nodes_of (soup ?r2)"
    then have "Element n cs \<in> {Element ''div'' [Element ''h5'' [Text ''Notes'']],
                 Element ''h5'' [Text ''Notes''], Text ''Notes''}"
      by (induction rule: nodes_of.induct) auto
    then show "n \<notin> {''p'', ''h1'', ''h2'', ''h3''}" by auto
  qed
  then have 2: "snd (scrape_documentation ?e2 ''http://docs.test'') = Inr []"
    using scrape_contains_trimmed_tag_text[OF h2, THEN conjunct2] by blast
  from 1 2 show ?thesis by (rule conjI)
qed

lemma chunks_whole:
  assumes "\<not> sublist [CHR 0x0A, CHR 0x0A] s"
  shows "chunks (strip s) = [strip s]"
proof -
  have "\<not> sublist [CHR 0x0A, CHR 0x0A] (strip s)"
    using assms sublist_strip[of s] by (meson sublist_order.order.trans)
  then show ?thesis by (simp add: chunks_def split_blank_whole strip_strip)
qed

section \<open>One chunk for a page\<close>

text \<open>
  Claim C8, amended: the scraper joins the tag texts with one newline, so for every
  page whose extracted tag texts are not empty, neither begin nor end with a newline
  and contain no two newlines in a row, the split at blank lines gives exactly one
  chunk, and indexing into a fresh directory stores the whole scraped text as the
  single entry.
\<close>

theorem single_chunk_without_boundary_newlines:
  assumes "http_get env url = Inr r" and "raise_for_status r = None"
    and "\<forall>t\<in>set (tag_texts (soup r)).
           t \<noteq> [] \<and> hd t \<noteq> CHR 0x0A \<and> last t \<noteq> CHR 0x0A \<and> \<not> sublist [CHR 0x0A, CHR 0x0A] t"
  shows "\<exists>doc. snd (scrape_documentation env url) = Inr doc \<and> chunks doc = [doc]
           \<and> snd (index_content Absent doc) = Inr (Index [doc])"
proof -
  let ?doc = "strip (join_nl (tag_texts (soup r)))"
  have "snd (scrape_documentation env url) = Inr ?doc"
    using assms(1,2) by (simp add: scrape_ok)
  moreover have c: "chunks ?doc = [?doc]"
    using join_nl_no_blank[OF assms(3)] by (rule chunks_whole)
  moreover have "snd (index_content Absent ?doc) = Inr (Index [?doc])"
    using c by (simp add: index_content_def)
  ultimately show ?thesis by blast
qed

lemma two_pars:
  "join_nl (tag_texts [Element ''p'' [Text (''a'' @ [CHR 0x0A])], Element ''p'' [Text ''b'']])
     = ''a'' @ [CHR 0x0A, CHR 0x0A] @ ''b''"
  by (simp add: tag_texts_def soup_find_all_def)

lemma strip_anb: "strip (''a'' @ [CHR 0x0A, CHR 0x0A] @ ''b'') = ''a'' @ [CHR 0x0A, CHR 0x0A] @ ''b''"
  "strip ''a'' = ''a''" "strip ''b'' = ''b''"
  by (simp_all add: strip_def isspace_def)

text \<open>
  Claim C8 says that a page whose tag texts contain no blank line is stored as one
  chunk. Two paragraphs with the texts \<open>a\<close> followed by a newline, and \<open>b\<close>, contain no
  blank line each, but the newline of the join makes one: the scraped text is cut
  into the two entries \<open>a\<close> and \<open>b\<close>.
\<close>

theorem newline_ended_tag_text_splits:
  "tag_texts [Element ''p'' [Text (''a'' @ [CHR 0x0A])], Element ''p'' [Text ''b'']]
     = [''a'' @ [CHR 0x0A], ''b'']
   \<and> \<not> sublist [CHR 0x0A, CHR 0x0A] (''a'' @ [CHR 0x0A])
   \<and> \<not> sublist [CHR 0x0A, CHR 0x0A] ''b''
   \<and> snd (scrape_documentation
          (fixed_env (Inr \<lparr>status_code = 200,
               soup = [Element ''p'' [Text (''a'' @ [CHR 0x0A])], Element ''p'' [Text ''b'']]\<rparr>)
             (Inr ''init()'')) ''http://docs.test'') = Inr (''a'' @ [CHR 0x0A, CHR 0x0A] @ ''b'')
   \<and> snd (index_content Absent (''a'' @ [CHR 0x0A, CHR 0x0A] @ ''b'')) = Inr (Index [''a'', ''b''])"
proof -
  have 1: "tag_texts [Element ''p'' [Text (''a'' @ [CHR 0x0A])], Element ''p'' [Text ''b'']]
     = [''a'' @ [CHR 0x0A], ''b'']"
    by (simp add: tag_texts_def soup_find_all_def)
  have 2: "\<not> sublist [CHR 0x0A, CHR 0x0A] (''a'' @ [CHR 0x0A])"
          "\<not> sublist [CHR 0x0A, CHR 0x0A] ''b''"
    by (simp_all add: sublist_Cons_right)
  have 3: "snd (scrape_documentation
          (fixed_env (Inr \<lparr>status_code = 200,
               soup = [Element ''p'' [Text (''a'' @ [CHR 0x0A])], Element ''p'' [Text ''b'']]\<rparr>)
             (Inr ''init()'')) ''http://docs.test'') = Inr (''a'' @ [CHR 0x0A, CHR 0x0A] @ ''b'')"
    using strip_anb(1) two_pars
    by (simp add: scrape_documentation_def Let_def raise_for_status_def fixed_env_def)
  have 4: "snd (index_content Absent (''a'' @ [CHR 0x0A, CHR 0x0A] @ ''b'')) = Inr (Index [''a'', ''b''])"
    using strip_anb(2,3) by (simp add: index_content_def chunks_def split_blank_def)
  from 1 2 3 4 show ?thesis by blast
qed

theorem single_chunk_without_boundary_newlines_witness:
  "\<exists>doc. snd (scrape_documentation
          (fixed_env (Inr \<lparr>status_code = 200, soup = setup_page\<rparr>) (Inr ''init()''))
          ''http://docs.test'') = Inr doc \<and> chunks doc = [doc]
           \<and> snd (index_content Absent doc) = Inr (Index [doc])"
  using single_chunk_without_boundary_newlines [of "fixed_env (Inr \<lparr>status_code = 200, soup = setup_page\<rparr>) (Inr ''init()'')"
                   "''http://docs.test''" "\<lparr>status_code = 200, soup = setup_page\<rparr>"]
  by (simp add: fixed_env_def raise_for_status_def tag_texts_def soup_find_all_def
                setup_page_def sublist_Cons_right)

lemma index_content_twice:
  assumes "prior = Absent \<and> docs = [] \<or> prior = Index docs"
  shows "snd (index_content prior content) = Inr (Index (docs @ chunks content))"
    and "snd (index_content (Index (docs @ chunks content)) content)
           = Inr (Index (docs @ chunks content @ chunks content))"
  using assms by (auto simp: index_content_def Let_def)

lemma search_content_unique:
  assumes "qparse env query = Inr q" and "c \<in> set docs" and "matches env q c"
    and "\<forall>d\<in>set docs. matches env q d \<longrightarrow> d = c"
  shows "snd (search_content env (Index docs) query) = Inr (Some c)"
proof -
  obtain others where "searcher_search env docs q = c # others"
    using searcher_search_unique[OF assms(2,3,4)] by blast
  with assms(1) show ?thesis by (simp add: search_content_hit)
qed

section \<open>Indexing twice\<close>

text \<open>
  Claim C6: indexing appends and removes no duplicates. Starting from a missing
  directory or from an index with any entries, indexing the same text twice leaves the
  old entries followed by the chunks of the text, twice; and a query that matches one
  of the chunks and no stored text different from it returns that chunk's stored
  content.
\<close>

theorem index_twice_appends_and_search_finds:
  assumes "prior = Absent \<and> docs = [] \<or> prior = Index docs"
  shows "\<exists>once. snd (index_content prior content) = Inr once
           \<and> snd (index_content once content) = Inr (Index (docs @ chunks content @ chunks content))
           \<and> (\<forall>q c. qparse env query = Inr q \<and> c \<in> set (chunks content) \<and> matches env q c
                  \<and> (\<forall>d\<in>set (docs @ chunks content). matches env q d \<longrightarrow> d = c)
                \<longrightarrow> snd (search_content env (Index (docs @ chunks content @ chunks content)) query)
                      = Inr (Some c))"
proof -
  have "\<forall>q c. qparse env query = Inr q \<and> c \<in> set (chunks content) \<and> matches env q c
                  \<and> (\<forall>d\<in>set (docs @ chunks content). matches env q d \<longrightarrow> d = c)
                \<longrightarrow> snd (search_content env (Index (docs @ chunks content @ chunks content)) query)
                      = Inr (Some c)"
  proof (intro allI impI)
    fix q c
    assume a: "qparse env query = Inr q \<and> c \<in> set (chunks content) \<and> matches env q c
                  \<and> (\<forall>d\<in>set (docs @ chunks content). matches env q d \<longrightarrow> d = c)"
    then have "c \<in> set (docs @ chunks content @ chunks content)"
      and "\<forall>d\<in>set (docs @ chunks content @ chunks content). matches env q d \<longrightarrow> d = c"
      by auto
    with a show "snd (search_content env (Index (docs @ chunks content @ chunks content)) query)
                      = Inr (Some c)"
      by (intro search_content_unique[of env query q]) auto
  qed
  with index_content_twice[OF assms, of content] show ?thesis by blast
qed

lemma two_chunks:
  "chunks (''alpha'' @ [CHR 0x0A, CHR 0x0A] @ ''beta'') = [''alpha'', ''beta'']"
  by (simp add: chunks_def split_blank_def strip_def isspace_def)

theorem index_twice_appends_and_search_finds_witness:
  "snd (index_content (Index [''alpha'', ''beta'']) (''alpha'' @ [CHR 0x0A, CHR 0x0A] @ ''beta''))
     = Inr (Index [''alpha'', ''beta'', ''alpha'', ''beta''])
   \<and> snd (search_content (fixed_env (Inl ''offline'') (Inr ''init()''))
            (Index [''alpha'', ''beta'', ''alpha'', ''beta'']) ''beta'') = Inr (Some ''beta'')"
proof -
  let ?env = "fixed_env (Inl ''offline'') (Inr ''init()'')"
  let ?text = "''alpha'' @ [CHR 0x0A, CHR 0x0A] @ ''beta''"
  have m: "qparse ?env ''beta'' = Inr ''beta''" "matches ?env ''beta'' ''beta''"
    "\<not> matches ?env ''beta'' ''alpha''"
    by (simp_all add: fixed_env_def sublist_Cons_right)
  have "snd (index_content Absent ?text) = Inr (Index [''alpha'', ''beta''])"
    using two_chunks by (simp add: index_content_def)
  with index_twice_appends_and_search_finds [of Absent "[]" ?text ?env "''beta''"] two_chunks m
  show ?thesis by auto
qed

section \<open>The scenario of the setup page\<close>

text \<open>
  Claim C4: for the page \<open><h1>Setup</h1><p>Run init() first.</p>\<close> the fetch stage
  returns exactly \<open>Setup\<close>, a newline, \<open>Run init() first.\<close>; indexing that text adds it
  as one entry; and the query \<open>init\<close> then returns that entry, which contains
  \<open>Run init() first.\<close>. The search library is a parameter: the statement holds for
  every library in which the query \<open>init\<close> parses and matches the scraped text, on a
  fresh directory or an index none of whose earlier entries matches the query.
\<close>

theorem setup_page_scenario:
  assumes "http_get env url = Inr r" and "raise_for_status r = None"
    and "soup r = setup_page"
    and "qparse env ''init'' = Inr q" and "matches env q setup_text"
    and "prior = Absent \<and> docs = [] \<or> prior = Index docs"
    and "\<forall>d\<in>set docs. \<not> matches env q d"
  shows "snd (scrape_documentation env url) = Inr (''Setup'' @ CHR 0x0A # ''Run init() first.'')
         \<and> snd (index_content prior (''Setup'' @ CHR 0x0A # ''Run init() first.''))
             = Inr (Index (docs @ [''Setup'' @ CHR 0x0A # ''Run init() first.'']))
         \<and> snd (search_content env (Index (docs @ [''Setup'' @ CHR 0x0A # ''Run init() first.'']))
                  ''init'') = Inr (Some (''Setup'' @ CHR 0x0A # ''Run init() first.''))
         \<and> sublist ''Run init() first.'' (''Setup'' @ CHR 0x0A # ''Run init() first.'')"
proof -
  have 1: "snd (scrape_documentation env url) = Inr setup_text"
    using assms(1,2,3) by (simp add: scrape_ok setup_page_texts strip_setup_text)
  have "\<not> sublist [CHR 0x0A, CHR 0x0A] setup_text"
    by (simp add: setup_text_def sublist_Cons_right)
  then have c: "chunks setup_text = [setup_text]"
    using chunks_whole[of setup_text] by (simp add: strip_setup_text)
  have 2: "snd (index_content prior setup_text) = Inr (Index (docs @ [setup_text]))"
    using index_content_twice(1)[OF assms(6), of setup_text] c by simp
  have 3: "snd (search_content env (Index (docs @ [setup_text])) ''init'') = Inr (Some setup_text)"
    using assms(4,5,7) by (intro search_content_unique[of env "''init''" q]) auto
  have 4: "sublist ''Run init() first.'' setup_text"
    by (simp add: setup_text_def sublist_Cons_right)
  from 1 2 3 4 show ?thesis by (simp add: setup_text_def)
qed

theorem setup_page_scenario_witness:
  "snd (scrape_documentation (fixed_env (Inr \<lparr>status_code = 200, soup = setup_page\<rparr>) (Inr ''init()''))
          ''http://docs.test'') = Inr (''Setup'' @ CHR 0x0A # ''Run init() first.'')
   \<and> snd (search_content (fixed_env (Inr \<lparr>status_code = 200, soup = setup_page\<rparr>) (Inr ''init()''))
            (Index [''Setup'' @ CHR 0x0A # ''Run init() first.'']) ''init'')
       = Inr (Some (''Setup'' @ CHR 0x0A # ''Run init() first.''))"
proof -
  let ?env = "fixed_env (Inr \<lparr>status_code = 200, soup = setup_page\<rparr>) (Inr ''init()'')"
  have h: "http_get ?env ''http://docs.test'' = Inr \<lparr>status_code = 200, soup = setup_page\<rparr>"
    "raise_for_status \<lparr>status_code = 200, soup = setup_page\<rparr> = None"
    "soup \<lparr>status_code = 200, soup = setup_page\<rparr> = setup_page"
    "qparse ?env ''init'' = Inr ''init''" "matches ?env ''init'' setup_text"
    by (simp_all add: fixed_env_def raise_for_status_def setup_text_def sublist_Cons_right)
  from setup_page_scenario [OF h, of Absent "[]"] show ?thesis by simp
qed

section \<open>Facts about the loop\<close>

lemma interactive_Break:
  "loop_body env dir line = Break ev \<Longrightarrow> snd (interactive env dir (line # rest)) = Exited"
  by simp

lemma interactive_Raise:
  "loop_body env dir line = Raise ev e \<Longrightarrow> snd (interactive env dir (line # rest)) = Fatal e"
  by simp

lemma interactive_Continue:
  "loop_body env dir line = Continue ev \<Longrightarrow>
   snd (interactive env dir (line # rest)) = snd (interactive env dir rest)"
  by (simp add: case_prod_beta)

lemma interactive_Exited_iff:
  "snd (interactive env dir lines) = Exited \<longleftrightarrow>
     (\<exists>pre l post. lines = pre @ l # post
        \<and> (\<forall>x\<in>set pre. \<exists>ev. loop_body env dir x = Continue ev) \<and> is_exit l)"
proof (induction lines)
  case Nil
  then show ?case by simp
next
  case (Cons a lines)
  show ?case
  proof (cases "loop_body env dir a")
    case (Break ev)
    then have "is_exit a" by (rule loop_body_Break)
    then have "a # lines = [] @ a # lines \<and> (\<forall>x\<in>set []. \<exists>ev. loop_body env dir x = Continue ev)
                 \<and> is_exit a" by simp
    then have "\<exists>pre l post. a # lines = pre @ l # post
        \<and> (\<forall>x\<in>set pre. \<exists>ev. loop_body env dir x = Continue ev) \<and> is_exit l" by blast
    with interactive_Break[OF Break] show ?thesis by simp
  next
    case (Raise ev e)
    have "\<not> (\<exists>pre l post. a # lines = pre @ l # post
        \<and> (\<forall>x\<in>set pre. \<exists>ev. loop_body env dir x = Continue ev) \<and> is_exit l)"
      using Raise by (auto simp: Cons_eq_append_conv loop_body_exit)
    with interactive_Raise[OF Raise] show ?thesis by simp
  next
    case (Continue ev)
    have "(\<exists>pre l post. a # lines = pre @ l # post
        \<and> (\<forall>x\<in>set pre. \<exists>ev. loop_body env dir x = Continue ev) \<and> is_exit l)
      \<longleftrightarrow> (\<exists>pre l post. lines = pre @ l # post
        \<and> (\<forall>x\<in>set pre. \<exists>ev. loop_body env dir x = Continue ev) \<and> is_exit l)"
      (is "?L \<longleftrightarrow> ?R")
    proof
      assume ?L
      then obtain pre l post where d: "a # lines = pre @ l # post"
        and c: "\<forall>x\<in>set pre. \<exists>ev. loop_body env dir x = Continue ev" and x: "is_exit l"
        by blast
      show ?R
      proof (cases pre)
        case Nil
        with d have "l = a" by simp
        with x Continue show ?thesis by (simp add: loop_body_exit)
      next
        case (Cons b pre')
        with d have "lines = pre' @ l # post" by simp
        moreover from c Cons have "\<forall>x\<in>set pre'. \<exists>ev. loop_body env dir x = Continue ev" by simp
        ultimately show ?thesis using x by blast
      qed
    next
      assume ?R
      then obtain pre l post where d: "lines = pre @ l # post"
        and c: "\<forall>x\<in>set pre. \<exists>ev. loop_body env dir x = Continue ev" and x: "is_exit l"
        by blast
      have "a # lines = (a # pre) @ l # post" using d by simp
      moreover have "\<forall>x\<in>set (a # pre). \<exists>ev. loop_body env dir x = Continue ev"
        using c Continue by simp
      ultimately show ?L using x by blast
    qed
    with interactive_Continue[OF Continue] Cons.IH show ?thesis by simp
  qed
qed

lemma interactive_Fatal_iff:
  "snd (interactive env dir lines) = Fatal e \<longleftrightarrow>
     (\<exists>pre l post ev. lines = pre @ l # post
        \<and> (\<forall>x\<in>set pre. \<exists>ev'. loop_body env dir x = Continue ev')
        \<and> loop_body env dir l = Raise ev e)
     \<or> ((\<forall>x\<in>set lines. \<exists>ev'. loop_body env dir x = Continue ev') \<and> e = Uncaught EOFError)"
proof (induction lines)
  case Nil
  then show ?case by auto
next
  case (Cons a lines)
  let ?P = "\<lambda>ls. (\<exists>pre l post ev. ls = pre @ l # post
        \<and> (\<forall>x\<in>set pre. \<exists>ev'. loop_body env dir x = Continue ev')
        \<and> loop_body env dir l = Raise ev e)"
  let ?Q = "\<lambda>ls. (\<forall>x\<in>set ls. \<exists>ev'. loop_body env dir x = Continue ev') \<and> e = Uncaught EOFError"
  show ?case
  proof (cases "loop_body env dir a")
    case (Break ev)
    have "\<not> ?P (a # lines)" using Break by (auto simp: Cons_eq_append_conv)
    moreover have "\<not> ?Q (a # lines)" using Break by simp
    ultimately show ?thesis using interactive_Break[OF Break] by simp
  next
    case (Raise ev e')
    have "?P (a # lines) \<longleftrightarrow> e' = e"
    proof
      assume "?P (a # lines)"
      then obtain pre l post ev2 where d: "a # lines = pre @ l # post"
        and c: "\<forall>x\<in>set pre. \<exists>ev'. loop_body env dir x = Continue ev'"
        and x: "loop_body env dir l = Raise ev2 e" by blast
      show "e' = e"
      proof (cases pre)
        case Nil with d x Raise show ?thesis by simp
      next
        case (Cons b pre') with d c Raise show ?thesis by simp
      qed
    next
      assume "e' = e"
      with Raise have "a # lines = [] @ a # lines
         \<and> (\<forall>x\<in>set []. \<exists>ev'. loop_body env dir x = Continue ev')
         \<and> loop_body env dir a = Raise ev e" by simp
      then show "?P (a # lines)" by blast
    qed
    moreover have "\<not> ?Q (a # lines)" using Raise by simp
    ultimately show ?thesis using interactive_Raise[OF Raise] by auto
  next
    case (Continue ev)
    have "?P (a # lines) \<longleftrightarrow> ?P lines"
    proof
      assume "?P (a # lines)"
      then obtain pre l post ev2 where d: "a # lines = pre @ l # post"
        and c: "\<forall>x\<in>set pre. \<exists>ev'. loop_body env dir x = Continue ev'"
        and x: "loop_body env dir l = Raise ev2 e" by blast
      show "?P lines"
      proof (cases pre)
        case Nil with d x Continue show ?thesis by simp
      next
        case (Cons b pre')
        with d have "lines = pre' @ l # post" by simp
        moreover from c Cons have "\<forall>x\<in>set pre'. \<exists>ev'. loop_body env dir x = Continue ev'"
          by simp
        ultimately show ?thesis using x by blast
      qed
    next
      assume "?P lines"
      then obtain pre l post ev2 where d: "lines = pre @ l # post"
        and c: "\<forall>x\<in>set pre. \<exists>ev'. loop_body env dir x = Continue ev'"
        and x: "loop_body env dir l = Raise ev2 e" by blast
      have "a # lines = (a # pre) @ l # post" using d by simp
      moreover have "\<forall>x\<in>set (a # pre). \<exists>ev'. loop_body env dir x = Continue ev'"
        using c Continue by simp
      ultimately show "?P (a # lines)" using x by blast
    qed
    moreover have "?Q (a # lines) \<longleftrightarrow> ?Q lines" using Continue by simp
    ultimately show ?thesis using interactive_Continue[OF Continue] Cons.IH by simp
  qed
qed

lemma main_ending:
  "snd (main env dir (first # rest)) =
     (case snd (setup_stages env dir (strip first)) of
        Inl e \<Rightarrow> Fatal e
      | Inr dir' \<Rightarrow> snd (interactive env dir' rest))"
  by (simp add: main_def case_prod_beta split: prod.splits sum.splits)

lemma loop_body_answer_failed:
  assumes "\<not> is_exit line" and "qparse env (strip line) = Inr q"
    and "searcher_search env docs q = passage # others" and "passage \<noteq> []"
    and "qa_pipeline env (strip line) passage = Inl cause"
  shows "loop_body env (Index docs) line =
           Raise [Print (''[STEP] Searching for: '' @ strip line),
                  Print ''[INFO] Relevant context found.'',
                  Print ''[STEP] Running QA model...'',
                  QACall (strip line) passage] (AnswerFailed cause)"
  using assms
  by (simp add: loop_body_def Let_def is_exit_def search_content_hit answer_query_def)


lemma interactive_Fatal_trace:
  "snd (interactive env dir lines) = Fatal e \<Longrightarrow>
   \<exists>ev. fst (interactive env dir lines) = ev @ [FatalLine e]"
proof (induction lines)
  case Nil
  then have "fst (interactive env dir []) = [QuestionPrompt] @ [FatalLine e]" by simp
  then show ?case by blast
next
  case (Cons a lines)
  show ?case
  proof (cases "loop_body env dir a")
    case (Break ev)
    with Cons.prems show ?thesis by simp
  next
    case (Raise ev e')
    with Cons.prems have "fst (interactive env dir (a # lines))
                            = (QuestionPrompt # ev) @ [FatalLine e]" by simp
    then show ?thesis by blast
  next
    case (Continue ev)
    with Cons.prems have "snd (interactive env dir lines) = Fatal e"
      by (simp add: case_prod_beta)
    from Cons.IH[OF this] obtain ev' where "fst (interactive env dir lines) = ev' @ [FatalLine e]"
      by blast
    with Continue have "fst (interactive env dir (a # lines))
                          = (QuestionPrompt # ev @ ev') @ [FatalLine e]"
      by (simp add: case_prod_beta)
    then show ?thesis by blast
  qed
qed

lemma interactive_Exited_trace:
  "snd (interactive env dir lines) = Exited \<Longrightarrow>
   \<exists>ev. fst (interactive env dir lines) = ev @ [Goodbye]"
proof (induction lines)
  case Nil
  then show ?case by simp
next
  case (Cons a lines)
  show ?case
  proof (cases "loop_body env dir a")
    case (Break ev)
    then have "is_exit a" by (rule loop_body_Break)
    then have "loop_body env dir a = Break [Goodbye]" by (rule loop_body_exit)
    then have "fst (interactive env dir (a # lines)) = [QuestionPrompt] @ [Goodbye]" by simp
    then show ?thesis by blast
  next
    case (Raise ev e')
    with Cons.prems show ?thesis by simp
  next
    case (Continue ev)
    with Cons.prems have "snd (interactive env dir lines) = Exited"
      by (simp add: case_prod_beta)
    from Cons.IH[OF this] obtain ev' where "fst (interactive env dir lines) = ev' @ [Goodbye]"
      by blast
    with Continue have "fst (interactive env dir (a # lines))
                          = (QuestionPrompt # ev @ ev') @ [Goodbye]"
      by (simp add: case_prod_beta)
    then show ?thesis by blast
  qed
qed

lemma interactive_not_Crashed: "snd (interactive env dir lines) \<noteq> Crashed x"
proof (induction lines)
  case Nil
  then show ?case by simp
next
  case (Cons a lines)
  then show ?case
    by (cases "loop_body env dir a") (simp_all add: case_prod_beta)
qed

lemma main_Nil: "main env dir [] = ([Welcome, UrlPrompt], Crashed EOFError)"
  by (simp add: main_def)

lemma main_Fatal_trace:
  assumes "snd (main env dir inputs) = Fatal e"
  shows "\<exists>ev. fst (main env dir inputs) = ev @ [FatalLine e]"
proof (cases inputs)
  case Nil
  with assms show ?thesis by (simp add: main_Nil)
next
  case (Cons first rest)
  obtain ev res where st: "setup_stages env dir (strip first) = (ev, res)"
    by (cases "setup_stages env dir (strip first)")
  show ?thesis
  proof (cases res)
    case (Inl e')
    with st Cons assms have "fst (main env dir inputs)
                               = ([Welcome, UrlPrompt] @ ev) @ [FatalLine e]"
      by (simp add: main_def)
    then show ?thesis by blast
  next
    case (Inr dir')
    with st Cons assms have "snd (interactive env dir' rest) = Fatal e"
      by (simp add: main_def case_prod_beta)
    from interactive_Fatal_trace[OF this] obtain ev'
      where "fst (interactive env dir' rest) = ev' @ [FatalLine e]" by blast
    with Inr st Cons have "fst (main env dir inputs)
                             = ([Welcome, UrlPrompt] @ ev @ ev') @ [FatalLine e]"
      by (simp add: main_def case_prod_beta)
    then show ?thesis by blast
  qed
qed

lemma main_Exited_trace:
  assumes "snd (main env dir inputs) = Exited"
  shows "\<exists>ev. fst (main env dir inputs) = ev @ [Goodbye]"
proof (cases inputs)
  case Nil
  with assms show ?thesis by (simp add: main_Nil)
next
  case (Cons first rest)
  obtain ev res where st: "setup_stages env dir (strip first) = (ev, res)"
    by (cases "setup_stages env dir (strip first)")
  show ?thesis
  proof (cases res)
    case (Inl e')
    with st Cons assms show ?thesis by (simp add: main_def)
  next
    case (Inr dir')
    with st Cons assms have "snd (interactive env dir' rest) = Exited"
      by (simp add: main_def case_prod_beta)
    from interactive_Exited_trace[OF this] obtain ev'
      where "fst (interactive env dir' rest) = ev' @ [Goodbye]" by blast
    with Inr st Cons have "fst (main env dir inputs)
                             = ([Welcome, UrlPrompt] @ ev @ ev') @ [Goodbye]"
      by (simp add: main_def case_prod_beta)
    then show ?thesis by blast
  qed
qed

lemma session_examples:
  "strip ''init'' = ''init''" "lower ''init'' \<noteq> ''exit''"
  "strip ''exit'' = ''exit''" "lower ''exit'' = ''exit''"
  "strip ''http://docs.test'' = ''http://docs.test''"
  by (simp_all add: strip_def isspace_def lower_def lower_char_def)

lemma hit_init: "searcher_search (fixed_env f a) [setup_text] ''init'' = [setup_text]"
  by (simp add: searcher_search_def ranked_def fixed_env_def setup_text_def sublist_Cons_right)

section \<open>How a session ends\<close>

text \<open>
  Claim C2 says that a failure while answering a query does not abort the session, which
  would end only on the exit command or on an exception of the setup. With a model that
  fails, the session that asks \<open>init\<close> and then types \<open>exit\<close> ends with the fatal error
  of the answer; the exit command is never read.
\<close>

theorem answer_failure_aborts_session:
  "snd (main (fixed_env (Inr \<lparr>status_code = 200, soup = setup_page\<rparr>)
               (Inl (PipelineError ''inference failed'')))
          Absent [''http://docs.test'', ''init'', ''exit''])
     = Fatal (AnswerFailed (PipelineError ''inference failed''))"
proof -
  let ?env = "fixed_env (Inr \<lparr>status_code = 200, soup = setup_page\<rparr>)
               (Inl (PipelineError ''inference failed''))"
  have s: "scrape_documentation ?env ''http://docs.test'' =
     ([Print (''[STEP] Fetching documentation from: '' @ ''http://docs.test''),
       Print ''[INFO] Content successfully scraped.'',
       Preview (take 300 setup_text)], Inr setup_text)"
    using scrape_ok[of ?env "''http://docs.test''" "\<lparr>status_code = 200, soup = setup_page\<rparr>"]
    by (simp add: fixed_env_def raise_for_status_def setup_page_texts strip_setup_text)
  have "\<not> sublist [CHR 0x0A, CHR 0x0A] setup_text"
    by (simp add: setup_text_def sublist_Cons_right)
  then have c: "chunks setup_text = [setup_text]"
    using chunks_whole[of setup_text] by (simp add: strip_setup_text)
  have i: "snd (index_content Absent setup_text) = Inr (Index [setup_text])"
    using c by (simp add: index_content_def)
  have l: "snd (load_qa_model ?env) = Inr ()"
    by (simp add: load_qa_model_def fixed_env_def)
  have st: "snd (setup_stages ?env Absent ''http://docs.test'') = Inr (Index [setup_text])"
    using s i l by (auto simp: setup_stages_def split: prod.splits sum.splits)
  have "qparse ?env ''init'' = Inr ''init''" "setup_text \<noteq> []"
    "qa_pipeline ?env ''init'' setup_text = Inl (PipelineError ''inference failed'')"
    by (simp_all add: fixed_env_def setup_text_def)
  then have "loop_body ?env (Index [setup_text]) ''init'' =
           Raise [Print (''[STEP] Searching for: '' @ ''init''),
                  Print ''[INFO] Relevant context found.'',
                  Print ''[STEP] Running QA model...'',
                  QACall ''init'' setup_text] (AnswerFailed (PipelineError ''inference failed''))"
    using loop_body_answer_failed[of "''init''" ?env "''init''" "[setup_text]" setup_text "[]"
            "PipelineError ''inference failed''"]
    by (simp add: is_exit_def session_examples hit_init)
  then have "snd (interactive ?env (Index [setup_text]) [''init'', ''exit''])
               = Fatal (AnswerFailed (PipelineError ''inference failed''))"
    by (rule interactive_Raise)
  with st show ?thesis by (simp add: main_ending session_examples)
qed

text \<open>
  Claim C2, amended: the setup and the loop run under one handler; only the prompt for
  the URL is outside it. A session whose input is empty crashes at that prompt with
  \<open>EOFError\<close> and prints no fatal message. A session whose first line was read ends with
  the exception of the setup, or as the loop ends. The loop ends cleanly exactly when
  some line is the exit command and every pass before it completed; it ends fatally
  exactly when some pass raised after the passes before it completed, or when every
  line was processed and the input ran out; it never crashes. A failure of the model
  while answering a query is such a raising pass: it aborts the session. Whenever the
  session, or the loop, ends fatally, the last line printed is the fatal message of
  that exception; whenever it ends cleanly, the last line printed is the goodbye line.
\<close>

theorem session_ending:
  "main env dir [] = ([Welcome, UrlPrompt], Crashed EOFError)
   \<and> snd (main env dir (first # rest)) =
       (case snd (setup_stages env dir (strip first)) of
          Inl e \<Rightarrow> Fatal e
        | Inr dir' \<Rightarrow> snd (interactive env dir' rest))
   \<and> (snd (main env dir inputs) = Fatal e \<longrightarrow>
        (\<exists>ev. fst (main env dir inputs) = ev @ [FatalLine e]))
   \<and> (snd (main env dir inputs) = Exited \<longrightarrow>
        (\<exists>ev. fst (main env dir inputs) = ev @ [Goodbye]))
   \<and> (snd (interactive env dir lines) = Exited \<longleftrightarrow>
        (\<exists>pre l post. lines = pre @ l # post
           \<and> (\<forall>x\<in>set pre. \<exists>ev. loop_body env dir x = Continue ev) \<and> is_exit l))
   \<and> (snd (interactive env dir lines) = Fatal e \<longleftrightarrow>
        (\<exists>pre l post ev. lines = pre @ l # post
           \<and> (\<forall>x\<in>set pre. \<exists>ev'. loop_body env dir x = Continue ev')
           \<and> loop_body env dir l = Raise ev e)
        \<or> ((\<forall>x\<in>set lines. \<exists>ev'. loop_body env dir x = Continue ev') \<and> e = Uncaught EOFError))
   \<and> (snd (interactive env dir lines) = Fatal e \<longrightarrow>
        (\<exists>ev. fst (interactive env dir lines) = ev @ [FatalLine e]))
   \<and> (snd (interactive env dir lines) = Exited \<longrightarrow>
        (\<exists>ev. fst (interactive env dir lines) = ev @ [Goodbye]))
   \<and> (\<forall>x. snd (interactive env dir lines) \<noteq> Crashed x)
   \<and> (\<not> is_exit line \<and> qparse env (strip line) = Inr q
        \<and> searcher_search env docs q = passage # others \<and> passage \<noteq> []
        \<and> qa_pipeline env (strip line) passage = Inl cause
      \<longrightarrow> loop_body env (Index docs) line =
           Raise [Print (''[STEP] Searching for: '' @ strip line),
                  Print ''[INFO] Relevant context found.'',
                  Print ''[STEP] Running QA model...'',
                  QACall (strip line) passage] (AnswerFailed cause))"
proof -
  note a = main_Nil[of env dir]
  note b = main_ending[of env dir first rest]
  have c: "snd (main env dir inputs) = Fatal e \<longrightarrow>
        (\<exists>ev. fst (main env dir inputs) = ev @ [FatalLine e])"
    using main_Fatal_trace[of env dir inputs e] by blast
  have d: "snd (main env dir inputs) = Exited \<longrightarrow>
        (\<exists>ev. fst (main env dir inputs) = ev @ [Goodbye])"
    using main_Exited_trace[of env dir inputs] by blast
  note e = interactive_Exited_iff[of env dir lines]
  note f = interactive_Fatal_iff[of env dir lines e]
  have g: "snd (interactive env dir lines) = Fatal e \<longrightarrow>
        (\<exists>ev. fst (interactive env dir lines) = ev @ [FatalLine e])"
    using interactive_Fatal_trace[of env dir lines e] by blast
  have h: "snd (interactive env dir lines) = Exited \<longrightarrow>
        (\<exists>ev. fst (interactive env dir lines) = ev @ [Goodbye])"
    using interactive_Exited_trace[of env dir lines] by blast
  have i: "\<forall>x. snd (interactive env dir lines) \<noteq> Crashed x"
    using interactive_not_Crashed[of env dir lines] by blast
  have j: "\<not> is_exit line \<and> qparse env (strip line) = Inr q
        \<and> searcher_search env docs q = passage # others \<and> passage \<noteq> []
        \<and> qa_pipeline env (strip line) passage = Inl cause
      \<longrightarrow> loop_body env (Index docs) line =
           Raise [Print (''[STEP] Searching for: '' @ strip line),
                  Print ''[INFO] Relevant context found.'',
                  Print ''[STEP] Running QA model...'',
                  QACall (strip line) passage] (AnswerFailed cause)"
    using loop_body_answer_failed[of line env q docs passage others cause] by blast
  show ?thesis
    by (intro conjI) (rule a b c d e f g h i j)+
qed

theorem session_ending_witness:
  "snd (interactive (fixed_env (Inl ''offline'') (Inl (PipelineError ''inference failed'')))
          (Index [setup_text]) [''xyzzy'', ''init'', ''exit''])
     = Fatal (AnswerFailed (PipelineError ''inference failed''))
   \<and> last (fst (interactive (fixed_env (Inl ''offline'') (Inl (PipelineError ''inference failed'')))
          (Index [setup_text]) [''xyzzy'', ''init'', ''exit'']))
     = FatalLine (AnswerFailed (PipelineError ''inference failed''))
   \<and> snd (interactive (fixed_env (Inl ''offline'') (Inl (PipelineError ''inference failed'')))
          (Index [setup_text]) [''xyzzy'', ''exit'']) = Exited
   \<and> last (fst (interactive (fixed_env (Inl ''offline'') (Inl (PipelineError ''inference failed'')))
          (Index [setup_text]) [''xyzzy'', ''exit''])) = Goodbye"
proof -
  let ?env = "fixed_env (Inl ''offline'') (Inl (PipelineError ''inference failed''))"
  let ?dir = "Index [setup_text]"
  let ?cause = "PipelineError ''inference failed''"
  note T1 = session_ending
    [where env = ?env and dir = ?dir and lines = "[''xyzzy'', ''init'', ''exit'']"
       and e = "AnswerFailed ?cause" and line = "''init''" and q = "''init''"
       and docs = "[setup_text]" and passage = setup_text and others = "[]"
       and cause = ?cause]
  note T2 = session_ending [where env = ?env and dir = ?dir and lines = "[''xyzzy'', ''exit'']"]
  note T1' = T1[THEN conjunct2, THEN conjunct2, THEN conjunct2, THEN conjunct2]
  note T2' = T2[THEN conjunct2, THEN conjunct2, THEN conjunct2, THEN conjunct2]
  note exited_iff = T2'[THEN conjunct1]
  note fatal_iff = T1'[THEN conjunct2, THEN conjunct1]
  note fatal_trace = T1'[THEN conjunct2, THEN conjunct2, THEN conjunct1]
  note exited_trace = T2'[THEN conjunct2, THEN conjunct2, THEN conjunct2, THEN conjunct1]
  note answer_raise = T1'[THEN conjunct2, THEN conjunct2, THEN conjunct2, THEN conjunct2,
                          THEN conjunct2]
  have "qparse ?env (strip ''xyzzy'') = Inr ''xyzzy''"
    by (simp add: fixed_env_def strip_examples)
  then have "loop_body ?env ?dir ''xyzzy'' =
      Continue [Print (''[STEP] Searching for: '' @ strip ''xyzzy''),
                Print ''[WARN] No relevant content found.'', Print handle_missing_info]"
    using search_content_no_hits[of ?env "''xyzzy''" "''xyzzy''" "[setup_text]"]
    by (simp add: loop_body_def Let_def strip_examples no_hit_xyzzy)
  then have c: "\<forall>x\<in>set [''xyzzy'']. \<exists>ev. loop_body ?env ?dir x = Continue ev"
    by simp
  have "\<not> is_exit ''init'' \<and> qparse ?env (strip ''init'') = Inr ''init''
        \<and> searcher_search ?env [setup_text] ''init'' = setup_text # [] \<and> setup_text \<noteq> []
        \<and> qa_pipeline ?env (strip ''init'') setup_text = Inl ?cause"
    by (simp add: is_exit_def session_examples hit_init) (simp add: fixed_env_def setup_text_def)
  from answer_raise[THEN mp, OF this]
  obtain ev where r: "loop_body ?env ?dir ''init'' = Raise ev (AnswerFailed ?cause)"
    by blast
  have "[''xyzzy'', ''init'', ''exit''] = [''xyzzy''] @ ''init'' # [''exit'']
        \<and> (\<forall>x\<in>set [''xyzzy'']. \<exists>ev'. loop_body ?env ?dir x = Continue ev')
        \<and> loop_body ?env ?dir ''init'' = Raise ev (AnswerFailed ?cause)"
    using c r by simp
  then have "\<exists>pre l post ev. [''xyzzy'', ''init'', ''exit''] = pre @ l # post
        \<and> (\<forall>x\<in>set pre. \<exists>ev'. loop_body ?env ?dir x = Continue ev')
        \<and> loop_body ?env ?dir l = Raise ev (AnswerFailed ?cause)"
    by (intro exI)
  then have f: "snd (interactive ?env ?dir [''xyzzy'', ''init'', ''exit''])
                  = Fatal (AnswerFailed ?cause)"
    using fatal_iff by (simp only: simp_thms)
  from fatal_trace[THEN mp, OF f]
  have fl: "last (fst (interactive ?env ?dir [''xyzzy'', ''init'', ''exit'']))
              = FatalLine (AnswerFailed ?cause)"
    by auto
  have "[''xyzzy'', ''exit''] = [''xyzzy''] @ ''exit'' # []
        \<and> (\<forall>x\<in>set [''xyzzy'']. \<exists>ev'. loop_body ?env ?dir x = Continue ev')
        \<and> is_exit ''exit''"
    using c by (simp add: is_exit_def session_examples)
  then have "\<exists>pre l post. [''xyzzy'', ''exit''] = pre @ l # post
        \<and> (\<forall>x\<in>set pre. \<exists>ev. loop_body ?env ?dir x = Continue ev) \<and> is_exit l"
    by (intro exI)
  then have x: "snd (interactive ?env ?dir [''xyzzy'', ''exit'']) = Exited"
    using exited_iff by (simp only: simp_thms)
  from exited_trace[THEN mp, OF x]
  have xl: "last (fst (interactive ?env ?dir [''xyzzy'', ''exit''])) = Goodbye"
    by auto
  from f fl x xl show ?thesis by (intro conjI)
qed

end
